theory Spec2Isabelle
  imports Main
begin

section \<open>Strings\<close>


definition TAB :: char where
  "TAB = CHR 0x09"

text \<open>\<^verbatim>\<open>line.startswith(p)\<close>: \<open>p\<close> is a prefix of the string.\<close>

fun startswith :: "string \<Rightarrow> string \<Rightarrow> bool" where
  "startswith [] s = True"
| "startswith (c # p) [] = False"
| "startswith (c # p) (d # s) = (c = d \<and> startswith p s)"

text \<open>
  \<^verbatim>\<open>p in s\<close> on two strings: \<open>p\<close> occurs in \<open>s\<close> as a contiguous substring.
  The empty string occurs in every string.
\<close>

fun str_in :: "string \<Rightarrow> string \<Rightarrow> bool" where
  "str_in p [] = (p = [])"
| "str_in p (d # s) = (startswith p (d # s) \<or> str_in p s)"

text \<open>
  \<^verbatim>\<open>str.upper\<close> on ASCII strings: each of the letters \<open>a\<close> to \<open>z\<close> becomes its
  capital, every other ASCII character is kept. On an ASCII string \<open>upper\<close> is
  \<^verbatim>\<open>str.upper\<close>; on other strings it is not (\<^verbatim>\<open>str.upper\<close> follows the Unicode case
  mapping, which also changes lengths). The theorems on the value of the uppercased
  alleles therefore assume \<open>is_ascii\<close>; the other theorems use of \<open>upper\<close> only that it keeps
  every separator \<open>;\<close> in its place and creates none, as \<^verbatim>\<open>str.upper\<close> does on every
  string. The genotype strings of the catalog are ASCII.
\<close>

definition small_letters :: string where
  "small_letters = ''abcdefghijklmnopqrstuvwxyz''"

definition capital_letters :: string where
  "capital_letters = ''ABCDEFGHIJKLMNOPQRSTUVWXYZ''"

definition upper_char :: "char \<Rightarrow> char" where
  "upper_char c =
     (case map_of (zip small_letters capital_letters) c of
        None \<Rightarrow> c
      | Some u \<Rightarrow> u)"

definition upper :: "string \<Rightarrow> string" where
  "upper s = map upper_char s"


text \<open>
  \<^verbatim>\<open>s.split(sep)\<close> for a one-character separator: the pieces between the
  occurrences of \<open>sep\<close>, empty pieces included; a string with \<open>n\<close> separators gives
  \<open>n + 1\<close> pieces.
\<close>

fun split_on :: "char \<Rightarrow> string \<Rightarrow> string list" where
  "split_on sep [] = [[]]"
| "split_on sep (c # cs) =
     (if c = sep then [] # split_on sep cs
      else (case split_on sep cs of
              [] \<Rightarrow> [[c]]
            | w # ws \<Rightarrow> (c # w) # ws))"

section \<open>The marker definition: class Rsid\<close>

text \<open>
  The only exception the matching code can raise: the tuple assignment
  \<^verbatim>\<open>a0, a1 = allele.upper().split(";")\<close> raises \<^verbatim>\<open>ValueError\<close> unless the split has
  exactly two pieces.
\<close>

datatype error = ValueError

record Rsid =
  rsid :: string
  alleles :: "string list"
  association :: string
  description :: string

text \<open>The constructor's parameter \<^verbatim>\<open>alleles: tuple | str\<close>.\<close>

datatype alleles_arg = Str string | Tuple "string list"

text \<open>
  \<^verbatim>\<open>Rsid.__init__\<close>: a single string becomes a one-element tuple, and a falsy
  (empty) description is replaced by the synthesized default.
\<close>

definition Rsid_init :: "string \<Rightarrow> alleles_arg \<Rightarrow> string \<Rightarrow> string \<Rightarrow> Rsid" where
  "Rsid_init rsid_arg alleles_arg association_arg description_arg =
     \<lparr> rsid = rsid_arg,
       alleles = (case alleles_arg of Tuple t \<Rightarrow> t | Str s \<Rightarrow> [s]),
       association = association_arg,
       description = (if description_arg \<noteq> [] then description_arg
                      else ''Variant associated with '' @ association_arg) \<rparr>"

text \<open>
  An entry of the static table \<^verbatim>\<open>_RSIDS\<close>: a tuple of three or of four elements,
  and \<^verbatim>\<open>RSIDS = [Rsid(*x) for x in _RSIDS]\<close>, where a missing fourth element
  takes the parameter's default \<^verbatim>\<open>""\<close>.
\<close>

datatype raw_entry =
  Entry3 string alleles_arg string
| Entry4 string alleles_arg string string

fun Rsid_of_entry :: "raw_entry \<Rightarrow> Rsid" where
  "Rsid_of_entry (Entry3 i a c) = Rsid_init i a c []"
| "Rsid_of_entry (Entry4 i a c d) = Rsid_init i a c d"

definition make_RSIDS :: "raw_entry list \<Rightarrow> Rsid list" where
  "make_RSIDS raw = map Rsid_of_entry raw"

subsection \<open>Genotype formats: allele_match_set\<close>

text \<open>
  \<^verbatim>\<open>_format_allele\<close>: the test \<^verbatim>\<open>";" in allele\<close> is made on the genotype as
  given, the split on its uppercased form.
\<close>

definition format_allele :: "string \<Rightarrow> error + string list" where
  "format_allele allele =
     (if CHR '';'' \<in> set allele then
        (case split_on CHR '';'' (upper allele) of
           [a0, a1] \<Rightarrow>
             Inr [''('' @ a0 @ '';'' @ a1 @ '')'',
                  a0 @ a1,
                  a0 @ ''/'' @ a1,
                  a0 @ [TAB] @ a1]
         | _ \<Rightarrow> Inl ValueError)
      else Inr [''('' @ upper allele @ '';'' @ upper allele @ '')''])"

text \<open>
  The generator \<^verbatim>\<open>format for allele in self.alleles for format in _format_allele(allele)\<close>,
  consumed by \<^verbatim>\<open>tuple(...)\<close>: the formats of all genotypes, flattened in order; an
  exception in any genotype leaves no tuple.
\<close>

fun formats_of :: "string list \<Rightarrow> error + string list" where
  "formats_of [] = Inr []"
| "formats_of (a # as) =
     (case format_allele a of
        Inl e \<Rightarrow> Inl e
      | Inr fs \<Rightarrow> (case formats_of as of
                     Inl e \<Rightarrow> Inl e
                   | Inr gs \<Rightarrow> Inr (fs @ gs)))"

definition allele_match_set :: "Rsid \<Rightarrow> error + string list" where
  "allele_match_set r = formats_of (alleles r)"

subsection \<open>Detection: Rsid.detect\<close>

text \<open>The \<^verbatim>\<open>for\<close> loop of \<^verbatim>\<open>detect\<close> over the formats, with its fall-through return.\<close>

fun detect_loop :: "string list \<Rightarrow> string \<Rightarrow> bool \<times> string" where
  "detect_loop [] line = (False, [])"
| "detect_loop (allele_format # rest) line =
     (if str_in allele_format line then (True, allele_format)
      else detect_loop rest line)"

definition detect :: "Rsid \<Rightarrow> string \<Rightarrow> error + (bool \<times> string)" where
  "detect r line =
     (if \<not> str_in (rsid r) line then Inr (False, [])
      else (case allele_match_set r of
              Inl e \<Rightarrow> Inl e
            | Inr fs \<Rightarrow> Inr (detect_loop fs line)))"

section \<open>The scan: scan_genes\<close>

text \<open>
  The loop of \<^verbatim>\<open>scan_genes\<close> over the catalog, with the list \<^verbatim>\<open>detected\<close> as
  accumulator. The dictionary is a map from identifier to line.
\<close>

fun scan_loop ::
  "Rsid list \<Rightarrow> (string \<rightharpoonup> string) \<Rightarrow> (Rsid \<times> string) list \<Rightarrow> error + (Rsid \<times> string) list"
where
  "scan_loop [] rsid_dict detected = Inr detected"
| "scan_loop (r # rs) rsid_dict detected =
     (case rsid_dict (rsid r) of
        None \<Rightarrow> scan_loop rs rsid_dict detected
      | Some line \<Rightarrow>
          (case detect r line of
             Inl e \<Rightarrow> Inl e
           | Inr (detected_flag, matched_allele) \<Rightarrow>
               scan_loop rs rsid_dict
                 (if detected_flag then detected @ [(r, matched_allele)] else detected)))"

definition scan_genes ::
  "Rsid list \<Rightarrow> (string \<rightharpoonup> string) \<Rightarrow> error + (Rsid \<times> string) list"
where
  "scan_genes RSIDS rsid_dict = scan_loop RSIDS rsid_dict []"

subsection \<open>The scan as a program on the store\<close>

text \<open>
  The objects a call of \<^verbatim>\<open>scan_genes\<close> can reach: the module-level list \<^verbatim>\<open>RSIDS\<close>
  with its \<^verbatim>\<open>Rsid\<close> objects, the dictionary passed as \<^verbatim>\<open>rsid_dict\<close>, and the list bound
  to the local name \<^verbatim>\<open>detected\<close>. Between two calls the store is what the first call
  left, the list of the first call included.
\<close>

record store =
  RSIDS_obj :: "Rsid list"
  rsid_dict_obj :: "string \<rightharpoonup> string"
  detected_obj :: "(Rsid \<times> string) list"

text \<open>
  The statements of \<^verbatim>\<open>scan_genes\<close>, each as a step on the store. The \<^verbatim>\<open>for\<close> loop
  runs over the catalog; its body reads the dictionary of the current store, and its only
  write is \<^verbatim>\<open>detected.append\<close>. An exception leaves the loop with the store as it is at
  that moment.
\<close>

fun scan_for :: "Rsid list \<Rightarrow> store \<Rightarrow> error option \<times> store" where
  "scan_for [] s = (None, s)"
| "scan_for (r # rs) s =
     (case rsid_dict_obj s (rsid r) of
        None \<Rightarrow> scan_for rs s
      | Some line \<Rightarrow>
          (case detect r line of
             Inl e \<Rightarrow> (Some e, s)
           | Inr (detected_flag, matched_allele) \<Rightarrow>
               scan_for rs
                 (if detected_flag
                  then s\<lparr>detected_obj := detected_obj s @ [(r, matched_allele)]\<rparr>
                  else s)))"

text \<open>
  A call: \<^verbatim>\<open>detected = []\<close>, the loop over \<^verbatim>\<open>RSIDS\<close>, \<^verbatim>\<open>return detected\<close>. It yields
  what the call returns or raises, and the store it leaves.
\<close>

definition scan_genes_call :: "store \<Rightarrow> (error + (Rsid \<times> string) list) \<times> store" where
  "scan_genes_call s =
     (case scan_for (RSIDS_obj s) (s\<lparr>detected_obj := []\<rparr>) of
        (Some e, s') \<Rightarrow> (Inl e, s')
      | (None, s') \<Rightarrow> (Inr (detected_obj s'), s'))"

section \<open>The specification's reading of a scan\<close>

text \<open>
  The words of the specification for \<open>scan\<close>, as three observations of a definition \<open>r\<close>
  against a record mapping: its identifier is a key and detection on that key's line
  reports present; the format detection reports there; detection on that key's line
  raises.
\<close>

definition present_in :: "(string \<rightharpoonup> string) \<Rightarrow> Rsid \<Rightarrow> bool" where
  "present_in rsid_dict r =
     (case rsid_dict (rsid r) of
        None \<Rightarrow> False
      | Some line \<Rightarrow> (case detect r line of Inl e \<Rightarrow> False | Inr (flag, f) \<Rightarrow> flag))"

definition matched_in :: "(string \<rightharpoonup> string) \<Rightarrow> Rsid \<Rightarrow> string" where
  "matched_in rsid_dict r =
     (case rsid_dict (rsid r) of
        None \<Rightarrow> []
      | Some line \<Rightarrow> (case detect r line of Inl e \<Rightarrow> [] | Inr (flag, f) \<Rightarrow> f))"

definition raises_in :: "(string \<rightharpoonup> string) \<Rightarrow> Rsid \<Rightarrow> bool" where
  "raises_in rsid_dict r =
     (case rsid_dict (rsid r) of
        None \<Rightarrow> False
      | Some line \<Rightarrow> (case detect r line of Inl e \<Rightarrow> True | Inr p \<Rightarrow> False))"

section \<open>Facts about the string operations\<close>




lemma upper_char_eval: "upper_char c =
     (case map_of (zip ''abcdefghijklmnopqrstuvwxyz'' ''ABCDEFGHIJKLMNOPQRSTUVWXYZ'') c of
        None \<Rightarrow> c | Some u \<Rightarrow> u)"
  by (simp only: upper_char_def small_letters_def capital_letters_def)

lemma upper_char_cases:
  "(c \<notin> set small_letters \<and> upper_char c = c) \<or> upper_char c \<in> set capital_letters"
proof (cases "map_of (zip small_letters capital_letters) c")
  case None
  have "length small_letters = length capital_letters"
    by (simp add: small_letters_def capital_letters_def)
  then have "c \<notin> set small_letters" using None by (simp add: map_of_zip_is_None)
  moreover have "upper_char c = c" using None unfolding upper_char_def by simp
  ultimately show ?thesis by simp
next
  case (Some u)
  then have "u \<in> set capital_letters"
    by (meson map_of_SomeD set_zip_rightD)
  moreover have "upper_char c = u" using Some unfolding upper_char_def by simp
  ultimately show ?thesis by simp
qed


lemma capital_not_small: "c \<in> set capital_letters \<Longrightarrow> c \<notin> set small_letters"
  unfolding capital_letters_def small_letters_def
  apply (simp only: set_simps insert_iff empty_iff)
  apply (elim disjE)
  apply simp_all
  done

lemma upper_char_not_small: "upper_char c \<notin> set small_letters"
  using upper_char_cases [of c] capital_not_small [of "upper_char c"] by auto


lemma upper_char_semi: "upper_char c = CHR '';'' \<longleftrightarrow> c = CHR '';''"
proof
  assume a: "upper_char c = CHR '';''"
  have "CHR '';'' \<notin> set capital_letters" by (simp add: capital_letters_def)
  with a upper_char_cases [of c] show "c = CHR '';''" by auto
next
  assume "c = CHR '';''"
  then show "upper_char c = CHR '';''" by (simp add: upper_char_eval)
qed

lemma upper_char_semi': "CHR '';'' = upper_char c \<longleftrightarrow> c = CHR '';''"
  using upper_char_semi [of c] by auto


lemma upper_append: "upper (x @ y) = upper x @ upper y"
  by (simp add: upper_def)

lemma upper_no_small: "c \<in> set (upper s) \<Longrightarrow> c \<notin> set small_letters"
  unfolding upper_def using upper_char_not_small by auto

lemma count_upper: "count_list (upper s) CHR '';'' = count_list s CHR '';''"
  by (induction s) (simp_all add: upper_def upper_char_semi)

lemma semi_in_upper: "CHR '';'' \<in> set (upper s) \<longleftrightarrow> CHR '';'' \<in> set s"
  by (induction s) (auto simp add: upper_def upper_char_semi upper_char_semi')

lemma upper_punct:
  "upper ''('' = ''(''" "upper '';'' = '';''" "upper '')'' = '')''" "upper ''/'' = ''/''"
  "upper [TAB] = [TAB]"
  by (simp_all add: upper_def upper_char_eval TAB_def)

lemma split_on_nonempty: "split_on sep s \<noteq> []"
  by (induction s) (auto split: list.splits)

lemma split_on_nosep: "sep \<notin> set x \<Longrightarrow> split_on sep x = [x]"
  by (induction x) auto

lemma split_on_append:
  "sep \<notin> set x \<Longrightarrow> split_on sep (x @ sep # y) = x # split_on sep y"
  by (induction x) auto

lemma length_split_on: "length (split_on sep s) = Suc (count_list s sep)"
  by (induction s) (auto split: list.splits simp: split_on_nonempty)

lemma count_one_decomp:
  "count_list s c = 1 \<Longrightarrow> \<exists>x y. s = x @ c # y \<and> c \<notin> set x \<and> c \<notin> set y"
proof (induction s)
  case Nil
  then show ?case by simp
next
  case (Cons d s)
  show ?case
  proof (cases "d = c")
    case True
    with Cons.prems have "count_list s c = 0" by simp
    then have "c \<notin> set s" by (simp add: count_list_0_iff)
    with True have "d # s = [] @ c # s \<and> c \<notin> set [] \<and> c \<notin> set s" by simp
    then show ?thesis by blast
  next
    case False
    with Cons.prems have "count_list s c = 1" by simp
    then obtain x y where "s = x @ c # y" "c \<notin> set x" "c \<notin> set y"
      using Cons.IH by blast
    with False have "d # s = (d # x) @ c # y \<and> c \<notin> set (d # x) \<and> c \<notin> set y" by simp
    then show ?thesis by blast
  qed
qed

section \<open>Facts about formats and detection\<close>

lemma format_allele_nosep:
  "CHR '';'' \<notin> set g \<Longrightarrow> format_allele g = Inr [''('' @ upper g @ '';'' @ upper g @ '')'']"
  by (simp add: format_allele_def)

lemma format_allele_pair:
  assumes "CHR '';'' \<notin> set x" and "CHR '';'' \<notin> set y"
  shows "format_allele (x @ CHR '';'' # y) =
           Inr [''('' @ upper x @ '';'' @ upper y @ '')'',
                upper x @ upper y,
                upper x @ ''/'' @ upper y,
                upper x @ [TAB] @ upper y]"
proof -
  have ux: "CHR '';'' \<notin> set (upper x)" and uy: "CHR '';'' \<notin> set (upper y)"
    using assms by (simp_all add: semi_in_upper)
  have "upper (x @ CHR '';'' # y) = upper x @ CHR '';'' # upper y"
    by (simp add: upper_def upper_char_semi)
  then have "split_on CHR '';'' (upper (x @ CHR '';'' # y)) = [upper x, upper y]"
    using ux uy by (simp add: split_on_append split_on_nosep)
  then show ?thesis by (simp add: format_allele_def)
qed

lemma format_allele_many:
  assumes "2 \<le> count_list g CHR '';''"
  shows "format_allele g = Inl ValueError"
proof -
  have "CHR '';'' \<in> set g"
    using assms by (metis count_list_0_iff not_numeral_le_zero)
  moreover have "3 \<le> length (split_on CHR '';'' (upper g))"
    using assms by (simp add: length_split_on count_upper)
  then have "\<And>a0 a1. split_on CHR '';'' (upper g) \<noteq> [a0, a1]"
    by auto
  ultimately show ?thesis
    by (auto simp add: format_allele_def split: list.splits)
qed

lemma format_allele_ok_iff:
  "(\<exists>fs. format_allele g = Inr fs) \<longleftrightarrow> count_list g CHR '';'' \<le> 1"
proof
  assume ok: "\<exists>fs. format_allele g = Inr fs"
  show "count_list g CHR '';'' \<le> 1"
  proof (rule ccontr)
    assume "\<not> count_list g CHR '';'' \<le> 1"
    then have "2 \<le> count_list g CHR '';''" by simp
    then have "format_allele g = Inl ValueError" by (rule format_allele_many)
    with ok show False by simp
  qed
next
  assume le: "count_list g CHR '';'' \<le> 1"
  show "\<exists>fs. format_allele g = Inr fs"
  proof (cases "count_list g CHR '';'' = 0")
    case True
    then have "CHR '';'' \<notin> set g" by (rule count_list_0_iff [THEN iffD1])
    then have "format_allele g = Inr [''('' @ upper g @ '';'' @ upper g @ '')'']"
      by (rule format_allele_nosep)
    then show ?thesis by simp
  next
    case False
    with le have "count_list g CHR '';'' = 1" by simp
    then have "\<exists>x y. g = x @ CHR '';'' # y \<and> CHR '';'' \<notin> set x \<and> CHR '';'' \<notin> set y"
      by (rule count_one_decomp)
    then obtain x y where g: "g = x @ CHR '';'' # y"
      and x: "CHR '';'' \<notin> set x" and y: "CHR '';'' \<notin> set y"
      by (elim exE conjE)
    show ?thesis unfolding g using format_allele_pair [OF x y] by simp
  qed
qed

lemma sum_error_cases: "(x :: error + 'a) = Inl ValueError \<or> (\<exists>v. x = Inr v)"
proof (cases x)
  case (Inl e)
  then show ?thesis by (cases e) simp
next
  case (Inr v)
  then show ?thesis by simp
qed

lemma format_allele_error_iff:
  "format_allele g = Inl ValueError \<longleftrightarrow> 2 \<le> count_list g CHR '';''"
proof
  assume "format_allele g = Inl ValueError"
  then have "\<not> (\<exists>fs. format_allele g = Inr fs)" by simp
  then have "\<not> count_list g CHR '';'' \<le> 1" using format_allele_ok_iff [of g] by simp
  then show "2 \<le> count_list g CHR '';''" by simp
next
  assume "2 \<le> count_list g CHR '';''"
  then show "format_allele g = Inl ValueError" by (rule format_allele_many)
qed

lemma formats_of_ok_iff:
  "(\<exists>fs. formats_of gs = Inr fs) \<longleftrightarrow> (\<forall>a\<in>set gs. count_list a CHR '';'' \<le> 1)"
proof (induction gs)
  case Nil
  then show ?case by simp
next
  case (Cons a gs)
  have "(\<exists>fs. formats_of (a # gs) = Inr fs)
        \<longleftrightarrow> (\<exists>fs. format_allele a = Inr fs) \<and> (\<exists>fs. formats_of gs = Inr fs)"
    by (cases "format_allele a"; cases "formats_of gs") simp_all
  then show ?case using Cons.IH by (simp add: format_allele_ok_iff)
qed

lemma formats_of_error_iff:
  "formats_of gs = Inl ValueError \<longleftrightarrow> (\<exists>a\<in>set gs. 2 \<le> count_list a CHR '';'')"
proof -
  have "formats_of gs = Inl ValueError \<longleftrightarrow> \<not> (\<exists>fs. formats_of gs = Inr fs)"
    using sum_error_cases [of "formats_of gs"] by auto
  also have "\<dots> \<longleftrightarrow> \<not> (\<forall>a\<in>set gs. count_list a CHR '';'' \<le> 1)"
    by (simp only: formats_of_ok_iff)
  also have "\<dots> \<longleftrightarrow> (\<exists>a\<in>set gs. 2 \<le> count_list a CHR '';'')"
  proof -
    have "\<And>n::nat. \<not> n \<le> 1 \<longleftrightarrow> 2 \<le> n" by arith
    then show ?thesis by simp
  qed
  finally show ?thesis .
qed

lemma detect_loop_cases:
  "(\<exists>pre f post. fs = pre @ f # post \<and> (\<forall>g\<in>set pre. \<not> str_in g line) \<and> str_in f line
        \<and> detect_loop fs line = (True, f))
   \<or> ((\<forall>g\<in>set fs. \<not> str_in g line) \<and> detect_loop fs line = (False, []))"
proof (induction fs)
  case Nil
  then show ?case by simp
next
  case (Cons a fs)
  show ?case
  proof (cases "str_in a line")
    case True
    then have "a # fs = [] @ a # fs \<and> (\<forall>g\<in>set []. \<not> str_in g line) \<and> str_in a line
        \<and> detect_loop (a # fs) line = (True, a)" by simp
    then show ?thesis by blast
  next
    case False
    from Cons.IH show ?thesis
    proof
      assume "\<exists>pre f post. fs = pre @ f # post \<and> (\<forall>g\<in>set pre. \<not> str_in g line) \<and> str_in f line
        \<and> detect_loop fs line = (True, f)"
      then obtain pre f post where h: "fs = pre @ f # post" "\<forall>g\<in>set pre. \<not> str_in g line"
        "str_in f line" "detect_loop fs line = (True, f)" by blast
      with False have "a # fs = (a # pre) @ f # post \<and> (\<forall>g\<in>set (a # pre). \<not> str_in g line)
        \<and> str_in f line \<and> detect_loop (a # fs) line = (True, f)" by simp
      then show ?thesis by blast
    next
      assume "(\<forall>g\<in>set fs. \<not> str_in g line) \<and> detect_loop fs line = (False, [])"
      with False show ?thesis by simp
    qed
  qed
qed



lemma no_small_if_upper: "upper f = f \<Longrightarrow> \<forall>c\<in>set f. c \<notin> set small_letters"
  using upper_no_small [of _ f] by auto


section \<open>Facts about the scan\<close>

lemma allele_match_set_ok_iff:
  "(\<exists>fs. allele_match_set r = Inr fs) \<longleftrightarrow> (\<forall>a\<in>set (alleles r). count_list a CHR '';'' \<le> 1)"
  unfolding allele_match_set_def by (rule formats_of_ok_iff)

lemma detect_error_iff:
  "detect r line = Inl ValueError
   \<longleftrightarrow> str_in (rsid r) line \<and> (\<exists>a\<in>set (alleles r). 2 \<le> count_list a CHR '';'')"
proof (cases "str_in (rsid r) line")
  case False
  then show ?thesis by (simp add: detect_def)
next
  case True
  have "detect r line = Inl ValueError \<longleftrightarrow> formats_of (alleles r) = Inl ValueError"
    using True by (cases "formats_of (alleles r)") (simp_all add: detect_def allele_match_set_def)
  then show ?thesis using True by (simp add: formats_of_error_iff)
qed

lemma formats_of_concat:
  "formats_of gs = Inr fs \<Longrightarrow>
   fs = concat (map (\<lambda>a. case format_allele a of Inl e \<Rightarrow> [] | Inr hs \<Rightarrow> hs) gs)"
proof (induction gs arbitrary: fs)
  case Nil
  then show ?case by simp
next
  case (Cons a gs)
  from Cons.prems obtain hs ks where h: "format_allele a = Inr hs" and k: "formats_of gs = Inr ks"
    and f: "fs = hs @ ks"
    by (cases "format_allele a"; cases "formats_of gs") auto
  from Cons.IH [OF k] h f show ?case by simp
qed

lemma scan_loop_result:
  "scan_loop cat d acc =
     (if \<exists>r\<in>set cat. raises_in d r then Inl ValueError
      else Inr (acc @ map (\<lambda>r. (r, matched_in d r)) (filter (present_in d) cat)))"
proof (induction cat arbitrary: acc)
  case Nil
  then show ?case by simp
next
  case (Cons r cat)
  show ?case
  proof (cases "d (rsid r)")
    case None
    then have "\<not> raises_in d r" "\<not> present_in d r"
      by (simp_all add: raises_in_def present_in_def)
    then show ?thesis using None Cons.IH [of acc] by simp
  next
    case (Some line)
    show ?thesis
    proof (cases "detect r line")
      case (Inl e)
      then have "raises_in d r" using Some by (simp add: raises_in_def)
      moreover have "e = ValueError" by (cases e) simp
      ultimately show ?thesis using Some Inl by simp
    next
      case (Inr p)
      obtain flag f where p: "p = (flag, f)" by (cases p)
      have nr: "\<not> raises_in d r" using Some Inr by (simp add: raises_in_def)
      have pr: "present_in d r = flag" using Some Inr p by (simp add: present_in_def)
      have mt: "matched_in d r = f" using Some Inr p by (simp add: matched_in_def)
      show ?thesis
      proof (cases flag)
        case True
        then show ?thesis
          using Some Inr p nr pr mt Cons.IH [of "acc @ [(r, f)]"] by simp
      next
        case False
        then show ?thesis
          using Some Inr p nr pr mt Cons.IH [of acc] by simp
      qed
    qed
  qed
qed

lemma raises_in_iff:
  "raises_in d r \<longleftrightarrow>
     (\<exists>line. d (rsid r) = Some line \<and> str_in (rsid r) line
        \<and> (\<exists>a\<in>set (alleles r). 2 \<le> count_list a CHR '';''))"
proof (cases "d (rsid r)")
  case None
  then show ?thesis by (simp add: raises_in_def)
next
  case (Some line)
  have "raises_in d r \<longleftrightarrow> detect r line = Inl ValueError"
    using Some sum_error_cases [of "detect r line"] by (auto simp add: raises_in_def)
  then show ?thesis using Some by (simp add: detect_error_iff)
qed

lemma scan_genes_result:
  "scan_genes cat d =
     (if \<exists>r\<in>set cat. raises_in d r then Inl ValueError
      else Inr (map (\<lambda>r. (r, matched_in d r)) (filter (present_in d) cat)))"
  unfolding scan_genes_def using scan_loop_result [of cat d "[]"] by simp

lemma no_raise_if_well_formed:
  assumes "\<forall>r\<in>set cat. \<forall>a\<in>set (alleles r). count_list a CHR '';'' \<le> 1"
  shows "\<not> (\<exists>r\<in>set cat. raises_in d r)"
proof
  assume "\<exists>r\<in>set cat. raises_in d r"
  then obtain r where r: "r \<in> set cat" and "raises_in d r" by (elim bexE)
  then obtain a where a: "a \<in> set (alleles r)" and "2 \<le> count_list a CHR '';''"
    unfolding raises_in_iff by (elim exE conjE bexE)
  moreover have "count_list a CHR '';'' \<le> 1" using assms r a by simp
  ultimately show False by simp
qed

lemma scan_genes_dict_order:
  assumes "distinct (map fst xs)" and "distinct (map fst ys)" and "set xs = set ys"
  shows "scan_genes cat (map_of xs) = scan_genes cat (map_of ys)"
proof -
  have "map_of xs = map_of ys" using assms by (simp add: map_of_inject_set)
  then show ?thesis by simp
qed

lemma scan_loop_cong:
  "(\<forall>r\<in>set cat. d1 (rsid r) = d2 (rsid r)) \<Longrightarrow> scan_loop cat d1 acc = scan_loop cat d2 acc"
proof (induction cat arbitrary: acc)
  case Nil
  then show ?case by simp
next
  case (Cons r cat)
  have k: "d1 (rsid r) = d2 (rsid r)" using Cons.prems by simp
  have ih: "\<And>acc. scan_loop cat d1 acc = scan_loop cat d2 acc"
    using Cons.IH Cons.prems by simp
  show ?case by (simp add: k ih split: option.splits sum.splits prod.splits)
qed

lemma scan_genes_keys_only:
  assumes "\<forall>r\<in>set cat. d1 (rsid r) = d2 (rsid r)"
  shows "scan_genes cat d1 = scan_genes cat d2"
  unfolding scan_genes_def using assms by (rule scan_loop_cong)

lemma scan_loop_absent:
  "(\<forall>r\<in>set cat. d (rsid r) = None) \<Longrightarrow> scan_loop cat d acc = Inr acc"
  by (induction cat arbitrary: acc) simp_all

lemma scan_genes_absent:
  assumes "\<forall>r\<in>set cat. d (rsid r) = None"
  shows "scan_genes cat d = Inr []"
  unfolding scan_genes_def using assms by (rule scan_loop_absent)

section \<open>Facts about ASCII capitals and about the store\<close>













lemma scan_for_frame:
  "RSIDS_obj (snd (scan_for rs s)) = RSIDS_obj s
   \<and> rsid_dict_obj (snd (scan_for rs s)) = rsid_dict_obj s"
proof (induction rs arbitrary: s)
  case Nil
  then show ?case by simp
next
  case (Cons r rs)
  show ?case
  proof (cases "rsid_dict_obj s (rsid r)")
    case None
    then show ?thesis using Cons.IH [of s] by simp
  next
    case (Some line)
    show ?thesis
    proof (cases "detect r line")
      case (Inl e)
      then show ?thesis using Some by simp
    next
      case (Inr p)
      obtain flag f where p: "p = (flag, f)" by (cases p)
      show ?thesis
      proof (cases flag)
        case True
        then show ?thesis
          using Some Inr p Cons.IH [of "s\<lparr>detected_obj := detected_obj s @ [(r, f)]\<rparr>"] by simp
      next
        case False
        then show ?thesis using Some Inr p Cons.IH [of s] by simp
      qed
    qed
  qed
qed

lemma scan_for_result:
  "scan_loop rs (rsid_dict_obj s) (detected_obj s) =
     (case scan_for rs s of
        (None, s') \<Rightarrow> Inr (detected_obj s')
      | (Some e, s') \<Rightarrow> Inl e)"
proof (induction rs arbitrary: s)
  case Nil
  then show ?case by simp
next
  case (Cons r rs)
  show ?case
  proof (cases "rsid_dict_obj s (rsid r)")
    case None
    then show ?thesis using Cons.IH [of s] by simp
  next
    case (Some line)
    show ?thesis
    proof (cases "detect r line")
      case (Inl e)
      then show ?thesis using Some by simp
    next
      case (Inr p)
      obtain flag f where p: "p = (flag, f)" by (cases p)
      show ?thesis
      proof (cases flag)
        case True
        then show ?thesis
          using Some Inr p Cons.IH [of "s\<lparr>detected_obj := detected_obj s @ [(r, f)]\<rparr>"] by simp
      next
        case False
        then show ?thesis using Some Inr p Cons.IH [of s] by simp
      qed
    qed
  qed
qed

lemma scan_genes_call_result:
  "fst (scan_genes_call s) = scan_genes (RSIDS_obj s) (rsid_dict_obj s)"
proof -
  obtain eo s' where r: "scan_for (RSIDS_obj s) (s\<lparr>detected_obj := []\<rparr>) = (eo, s')"
    by (cases "scan_for (RSIDS_obj s) (s\<lparr>detected_obj := []\<rparr>)")
  have "scan_loop (RSIDS_obj s) (rsid_dict_obj s) [] =
          (case eo of None \<Rightarrow> Inr (detected_obj s') | Some e \<Rightarrow> Inl e)"
    using scan_for_result [of "RSIDS_obj s" "s\<lparr>detected_obj := []\<rparr>"] r
    by (cases eo) simp_all
  then show ?thesis
    using r by (cases eo) (simp_all add: scan_genes_call_def scan_genes_def)
qed

lemma scan_genes_call_frame:
  "RSIDS_obj (snd (scan_genes_call s)) = RSIDS_obj s
   \<and> rsid_dict_obj (snd (scan_genes_call s)) = rsid_dict_obj s"
proof -
  obtain eo s' where r: "scan_for (RSIDS_obj s) (s\<lparr>detected_obj := []\<rparr>) = (eo, s')"
    by (cases "scan_for (RSIDS_obj s) (s\<lparr>detected_obj := []\<rparr>)")
  have "snd (scan_genes_call s) = s'"
    using r by (cases eo) (simp_all add: scan_genes_call_def)
  moreover have "RSIDS_obj s' = RSIDS_obj s \<and> rsid_dict_obj s' = rsid_dict_obj s"
    using scan_for_frame [of "RSIDS_obj s" "s\<lparr>detected_obj := []\<rparr>"] r by simp
  ultimately show ?thesis by simp
qed




section \<open>The genotype format normalizer\<close>





text \<open>
  Claim C8, as the code has it. The computation of the formats of a genotype returns a
  tuple exactly when the genotype has at most one separator \<open>;\<close>, and raises
  \<^verbatim>\<open>ValueError\<close> exactly when it has two or more: the assignment to \<open>a0, a1\<close> needs a
  split in two pieces. Accordingly the formats of a definition exist exactly when each of
  its genotypes has at most one separator, and detection raises exactly when the line
  contains the identifier and some genotype has two or more. The genotype \<open>A;\<close> of the
  catalog, with an empty second allele, yields the four formats \<open>(A;)\<close>, \<open>A\<close>, \<open>A/\<close> and
  \<open>A\<close> followed by a tab.
\<close>

theorem format_allele_total_at_most_one_separator:
  "((\<exists>fs. format_allele g = Inr fs) \<longleftrightarrow> count_list g CHR '';'' \<le> 1)
   \<and> (format_allele g = Inl ValueError \<longleftrightarrow> 2 \<le> count_list g CHR '';'')
   \<and> ((\<exists>fs. allele_match_set r = Inr fs) \<longleftrightarrow> (\<forall>a\<in>set (alleles r). count_list a CHR '';'' \<le> 1))
   \<and> (detect r line = Inl ValueError
        \<longleftrightarrow> str_in (rsid r) line \<and> (\<exists>a\<in>set (alleles r). 2 \<le> count_list a CHR '';''))
   \<and> format_allele ''A;'' = Inr [''(A;)'', ''A'', ''A/'', ''A'' @ [TAB]]"
proof -
  have "format_allele ''A;'' = Inr [''(A;)'', ''A'', ''A/'', ''A'' @ [TAB]]"
    by (simp add: format_allele_def upper_def upper_char_eval)
  then show ?thesis
    using format_allele_ok_iff [of g] format_allele_error_iff [of g]
      allele_match_set_ok_iff [of r] detect_error_iff [of r line]
    by simp
qed

text \<open>
  The theorem at the catalog entry \<open>rs6152\<close> with genotype \<open>A;\<close>: nothing raises.
\<close>

theorem format_allele_total_at_most_one_separator_witness:
  "count_list ''A;'' CHR '';'' \<le> 1
   \<and> (\<exists>fs. format_allele ''A;'' = Inr fs)
   \<and> format_allele ''A;'' \<noteq> Inl ValueError
   \<and> list_all (\<lambda>a. count_list a CHR '';'' \<le> 1)
        (alleles (Rsid_init ''rs6152'' (Str ''A;'') ''Hair Characteristics'' []))
   \<and> (\<exists>fs. allele_match_set (Rsid_init ''rs6152'' (Str ''A;'') ''Hair Characteristics'' []) = Inr fs)
   \<and> str_in (rsid (Rsid_init ''rs6152'' (Str ''A;'') ''Hair Characteristics'' []))
        (''rs6152'' @ [TAB] @ ''A'')
   \<and> detect (Rsid_init ''rs6152'' (Str ''A;'') ''Hair Characteristics'' [])
        (''rs6152'' @ [TAB] @ ''A'') \<noteq> Inl ValueError"
proof -
  have c: "count_list ''A;'' CHR '';'' \<le> 1" by simp
  have w: "\<forall>a\<in>set (alleles (Rsid_init ''rs6152'' (Str ''A;'') ''Hair Characteristics'' [])).
         count_list a CHR '';'' \<le> 1"
    by (simp add: Rsid_init_def)
  have s: "str_in (rsid (Rsid_init ''rs6152'' (Str ''A;'') ''Hair Characteristics'' []))
        (''rs6152'' @ [TAB] @ ''A'')"
    by (simp add: Rsid_init_def)
  show ?thesis
    using c w s
      format_allele_total_at_most_one_separator
        [of "''A;''" "Rsid_init ''rs6152'' (Str ''A;'') ''Hair Characteristics'' []"
            "''rs6152'' @ [TAB] @ ''A''"]
    by (auto simp add: list_all_iff)
qed

text \<open>
  A genotype with two separators: the split has three pieces and the computation of
  the formats raises.
\<close>

theorem format_allele_raises_counterexample:
  "format_allele ''A;B;C'' = Inl ValueError"
  by (simp add: format_allele_def upper_def upper_char_eval)

section \<open>Detection\<close>

text \<open>
  Claim C6. When the identifier of the definition is not a substring of the line,
  detection returns not present, with the empty string as matched format, whatever the
  genotypes of the definition and whatever the line holds; in particular it does not
  raise.
\<close>

theorem detect_identifier_absent:
  assumes "\<not> str_in (rsid r) line"
  shows "detect r line = Inr (False, [])"
  using assms by (simp add: detect_def)

text \<open>
  The theorem at a line for another identifier that does contain the format \<open>(C;C)\<close>.
\<close>

theorem detect_identifier_absent_witness:
  "\<not> str_in (rsid (Rsid_init ''rs429358'' (Str ''C;C'') ''Autism'' [])) (''rs7412'' @ [TAB] @ ''(C;C)'')
   \<and> detect (Rsid_init ''rs429358'' (Str ''C;C'') ''Autism'' []) (''rs7412'' @ [TAB] @ ''(C;C)'')
       = Inr (False, [])"
  using detect_identifier_absent
    [of "Rsid_init ''rs429358'' (Str ''C;C'') ''Autism'' []" "''rs7412'' @ [TAB] @ ''(C;C)''"]
  by (simp add: Rsid_init_def TAB_def)

text \<open>
  Claim C1, as the code has it. For a definition each of whose genotypes has at most
  one separator \<open>;\<close> (these are the definitions whose formats can be generated) and a
  line that contains its identifier: the formats \<open>fs\<close> are the formats of the genotypes,
  flattened in the order of the genotypes; detection returns present together with the
  first format of \<open>fs\<close> that is a substring of the line (no format before it is one); and
  if no format of \<open>fs\<close> is a substring of the line, it returns not present.
\<close>

theorem detect_first_matching_format:
  assumes "\<forall>a\<in>set (alleles r). count_list a CHR '';'' \<le> 1"
    and "str_in (rsid r) line"
  shows "\<exists>fs. allele_match_set r = Inr fs
           \<and> fs = concat (map (\<lambda>a. case format_allele a of Inl e \<Rightarrow> [] | Inr hs \<Rightarrow> hs) (alleles r))
           \<and> ((\<exists>pre f post. fs = pre @ f # post \<and> (\<forall>g\<in>set pre. \<not> str_in g line)
                   \<and> str_in f line \<and> detect r line = Inr (True, f))
               \<or> ((\<forall>g\<in>set fs. \<not> str_in g line) \<and> detect r line = Inr (False, [])))"
proof -
  from assms(1) obtain fs where fs: "allele_match_set r = Inr fs"
    using allele_match_set_ok_iff [of r] by auto
  then have d: "detect r line = Inr (detect_loop fs line)"
    using assms(2) by (simp add: detect_def)
  have c: "fs = concat (map (\<lambda>a. case format_allele a of Inl e \<Rightarrow> [] | Inr hs \<Rightarrow> hs) (alleles r))"
    using fs unfolding allele_match_set_def by (rule formats_of_concat)
  have "(\<exists>pre f post. fs = pre @ f # post \<and> (\<forall>g\<in>set pre. \<not> str_in g line)
                   \<and> str_in f line \<and> detect r line = Inr (True, f))
               \<or> ((\<forall>g\<in>set fs. \<not> str_in g line) \<and> detect r line = Inr (False, []))"
    using detect_loop_cases [of fs line] unfolding d by simp
  with fs c show ?thesis by simp
qed

text \<open>
  The theorem at a line that holds the genotype as \<open>CC\<close>: the first format \<open>(C;C)\<close> is
  passed over and the second is returned.
\<close>

theorem detect_first_matching_format_witness:
  "list_all (\<lambda>a. count_list a CHR '';'' \<le> 1)
     (alleles (Rsid_init ''rs429358'' (Str ''C;C'') ''Autism'' []))
   \<and> str_in (rsid (Rsid_init ''rs429358'' (Str ''C;C'') ''Autism'' [])) (''rs429358'' @ [TAB] @ ''CC'')
   \<and> detect (Rsid_init ''rs429358'' (Str ''C;C'') ''Autism'' []) (''rs429358'' @ [TAB] @ ''CC'')
       = Inr (True, ''CC'')
   \<and> (\<exists>fs. allele_match_set (Rsid_init ''rs429358'' (Str ''C;C'') ''Autism'' []) = Inr fs
           \<and> fs = concat (map (\<lambda>a. case format_allele a of Inl e \<Rightarrow> [] | Inr hs \<Rightarrow> hs)
                    (alleles (Rsid_init ''rs429358'' (Str ''C;C'') ''Autism'' [])))
           \<and> ((\<exists>pre f post. fs = pre @ f # post
                   \<and> (\<forall>g\<in>set pre. \<not> str_in g (''rs429358'' @ [TAB] @ ''CC''))
                   \<and> str_in f (''rs429358'' @ [TAB] @ ''CC'')
                   \<and> detect (Rsid_init ''rs429358'' (Str ''C;C'') ''Autism'' [])
                        (''rs429358'' @ [TAB] @ ''CC'') = Inr (True, f))
               \<or> ((\<forall>g\<in>set fs. \<not> str_in g (''rs429358'' @ [TAB] @ ''CC''))
                   \<and> detect (Rsid_init ''rs429358'' (Str ''C;C'') ''Autism'' [])
                        (''rs429358'' @ [TAB] @ ''CC'') = Inr (False, []))))"
proof -
  have h1: "\<forall>a\<in>set (alleles (Rsid_init ''rs429358'' (Str ''C;C'') ''Autism'' [])).
              count_list a CHR '';'' \<le> 1"
    by (simp add: Rsid_init_def)
  have h2: "str_in (rsid (Rsid_init ''rs429358'' (Str ''C;C'') ''Autism'' []))
              (''rs429358'' @ [TAB] @ ''CC'')"
    by (simp add: Rsid_init_def)
  have v: "detect (Rsid_init ''rs429358'' (Str ''C;C'') ''Autism'' []) (''rs429358'' @ [TAB] @ ''CC'')
       = Inr (True, ''CC'')"
    by (simp add: detect_def allele_match_set_def format_allele_def Rsid_init_def
          upper_def upper_char_eval TAB_def)
  have l1: "list_all (\<lambda>a. count_list a CHR '';'' \<le> 1)
     (alleles (Rsid_init ''rs429358'' (Str ''C;C'') ''Autism'' []))"
    using h1 by (simp only: list_all_iff)
  show ?thesis using l1 h2 v detect_first_matching_format [OF h1 h2] by (intro conjI)
qed

text \<open>
  A definition whose genotype has two separators, on a line that contains its
  identifier: detection returns neither present nor not present, it raises.
\<close>

theorem detect_raises_counterexample:
  "detect (Rsid_init ''rs429358'' (Str ''A;B;C'') ''Autism'' []) (''rs429358'' @ [TAB] @ ''AB'')
     = Inl ValueError"
  by (simp add: detect_def allele_match_set_def format_allele_def Rsid_init_def
        upper_def upper_char_eval)

section \<open>The scan\<close>

text \<open>
  Claim C2, as the code has it. The scan raises \<^verbatim>\<open>ValueError\<close> when detection raises
  for some definition of the catalog on the line of its identifier; otherwise, and in
  particular whenever every genotype of the catalog has at most one separator \<open>;\<close>, its
  result is, in catalog order, the pair of definition and matched format for exactly the
  definitions whose identifier is a key of the mapping and for which detection on that
  key's line reports present. When no identifier of the catalog is a key, the result is
  empty and nothing raises, whatever the genotypes. The result depends on the mapping
  only, not on the order of its items: two item lists with distinct keys and the same
  items give the same scan.
\<close>

theorem scan_genes_catalog_order:
  "scan_genes cat d =
     (if \<exists>r\<in>set cat. raises_in d r then Inl ValueError
      else Inr (map (\<lambda>r. (r, matched_in d r)) (filter (present_in d) cat)))
   \<and> ((\<forall>r\<in>set cat. \<forall>a\<in>set (alleles r). count_list a CHR '';'' \<le> 1)
        \<longrightarrow> scan_genes cat d = Inr (map (\<lambda>r. (r, matched_in d r)) (filter (present_in d) cat)))
   \<and> ((\<forall>r\<in>set cat'. d' (rsid r) = None) \<longrightarrow> scan_genes cat' d' = Inr [])
   \<and> (distinct (map fst xs) \<and> distinct (map fst ys) \<and> set xs = set ys
        \<longrightarrow> scan_genes cat (map_of xs) = scan_genes cat (map_of ys))"
  using scan_genes_result [of cat d] no_raise_if_well_formed [of cat d]
    scan_genes_absent [of cat' d'] scan_genes_dict_order [of xs ys cat]
  by simp

text \<open>
  The theorem at a catalog of three definitions, two of them for the same identifier,
  and at a catalog none of whose identifiers is a key.
\<close>

theorem scan_genes_catalog_order_witness:
  "list_all (\<lambda>r. list_all (\<lambda>a. count_list a CHR '';'' \<le> 1) (alleles r))
     [Rsid_init ''rs1322784'' (Str ''C;C'') ''Autism'' [],
      Rsid_init ''rs1322784'' (Str ''C;T'') ''Autism'' [],
      Rsid_init ''rs4532'' (Str ''C;T'') ''Autism'' []]
   \<and> scan_genes [Rsid_init ''rs1322784'' (Str ''C;C'') ''Autism'' [],
                 Rsid_init ''rs1322784'' (Str ''C;T'') ''Autism'' [],
                 Rsid_init ''rs4532'' (Str ''C;T'') ''Autism'' []]
        [''rs1322784'' \<mapsto> ''rs1322784'' @ [TAB] @ ''CT'']
      = Inr [(Rsid_init ''rs1322784'' (Str ''C;T'') ''Autism'' [], ''CT'')]
   \<and> list_all (\<lambda>r. Map.empty (rsid r) = (None :: string option))
        [Rsid_init ''rs429358'' (Str ''A;B;C'') ''Autism'' []]
   \<and> scan_genes [Rsid_init ''rs429358'' (Str ''A;B;C'') ''Autism'' []] Map.empty = Inr []
   \<and> distinct (map fst [(''rs4532'', ''rs4532'' @ [TAB] @ ''CT''),
                         (''rs1322784'', ''rs1322784'' @ [TAB] @ ''CT'')])
   \<and> distinct (map fst [(''rs1322784'', ''rs1322784'' @ [TAB] @ ''CT''),
                         (''rs4532'', ''rs4532'' @ [TAB] @ ''CT'')])
   \<and> set [(''rs4532'', ''rs4532'' @ [TAB] @ ''CT''), (''rs1322784'', ''rs1322784'' @ [TAB] @ ''CT'')]
       = set [(''rs1322784'', ''rs1322784'' @ [TAB] @ ''CT''), (''rs4532'', ''rs4532'' @ [TAB] @ ''CT'')]
   \<and> scan_genes [Rsid_init ''rs1322784'' (Str ''C;C'') ''Autism'' [],
                 Rsid_init ''rs1322784'' (Str ''C;T'') ''Autism'' [],
                 Rsid_init ''rs4532'' (Str ''C;T'') ''Autism'' []]
        (map_of [(''rs4532'', ''rs4532'' @ [TAB] @ ''CT''),
                 (''rs1322784'', ''rs1322784'' @ [TAB] @ ''CT'')])
      = scan_genes [Rsid_init ''rs1322784'' (Str ''C;C'') ''Autism'' [],
                 Rsid_init ''rs1322784'' (Str ''C;T'') ''Autism'' [],
                 Rsid_init ''rs4532'' (Str ''C;T'') ''Autism'' []]
        (map_of [(''rs1322784'', ''rs1322784'' @ [TAB] @ ''CT''),
                 (''rs4532'', ''rs4532'' @ [TAB] @ ''CT'')])"
proof -
  let ?cat = "[Rsid_init ''rs1322784'' (Str ''C;C'') ''Autism'' [],
               Rsid_init ''rs1322784'' (Str ''C;T'') ''Autism'' [],
               Rsid_init ''rs4532'' (Str ''C;T'') ''Autism'' []]"
  let ?d = "[''rs1322784'' \<mapsto> ''rs1322784'' @ [TAB] @ ''CT'']"
  let ?xs = "[(''rs4532'', ''rs4532'' @ [TAB] @ ''CT''), (''rs1322784'', ''rs1322784'' @ [TAB] @ ''CT'')]"
  let ?ys = "[(''rs1322784'', ''rs1322784'' @ [TAB] @ ''CT''), (''rs4532'', ''rs4532'' @ [TAB] @ ''CT'')]"
  have wf: "\<forall>r\<in>set ?cat. \<forall>a\<in>set (alleles r). count_list a CHR '';'' \<le> 1"
    by (simp add: Rsid_init_def)
  have p1: "\<not> present_in ?d (Rsid_init ''rs1322784'' (Str ''C;C'') ''Autism'' [])"
    by (simp add: present_in_def detect_def allele_match_set_def format_allele_def Rsid_init_def
          upper_def upper_char_eval TAB_def)
  have p2: "present_in ?d (Rsid_init ''rs1322784'' (Str ''C;T'') ''Autism'' [])"
    by (simp add: present_in_def detect_def allele_match_set_def format_allele_def Rsid_init_def
          upper_def upper_char_eval TAB_def)
  have p3: "\<not> present_in ?d (Rsid_init ''rs4532'' (Str ''C;T'') ''Autism'' [])"
    by (simp add: present_in_def Rsid_init_def)
  have m2: "matched_in ?d (Rsid_init ''rs1322784'' (Str ''C;T'') ''Autism'' []) = ''CT''"
    by (simp add: matched_in_def detect_def allele_match_set_def format_allele_def Rsid_init_def
          upper_def upper_char_eval TAB_def)
  have dx: "distinct (map fst ?xs)" and dy: "distinct (map fst ?ys)" by simp_all
  have st: "set ?xs = set ?ys" by (simp add: insert_commute)
  let ?cat' = "[Rsid_init ''rs429358'' (Str ''A;B;C'') ''Autism'' []]"
  have ab: "\<forall>r\<in>set ?cat'. Map.empty (rsid r) = None" by simp
  from scan_genes_catalog_order [of ?cat ?d ?cat' Map.empty ?xs ?ys]
  have a: "scan_genes ?cat ?d = Inr (map (\<lambda>r. (r, matched_in ?d r)) (filter (present_in ?d) ?cat))"
    and b: "scan_genes ?cat (map_of ?xs) = scan_genes ?cat (map_of ?ys)"
    and e: "scan_genes ?cat' Map.empty = Inr []"
    using wf dx dy st ab by blast+
  have "scan_genes ?cat ?d = Inr [(Rsid_init ''rs1322784'' (Str ''C;T'') ''Autism'' [], ''CT'')]"
    unfolding a using p1 p2 p3 m2 by simp
  moreover have "list_all (\<lambda>r. list_all (\<lambda>a. count_list a CHR '';'' \<le> 1) (alleles r)) ?cat"
    using wf by (simp only: list_all_iff)
  moreover have "list_all (\<lambda>r. Map.empty (rsid r) = (None :: string option)) ?cat'"
    by simp
  ultimately show ?thesis using dx dy st b e by (intro conjI)
qed

text \<open>
  A catalog holding a genotype with two separators, and a mapping whose line for that
  identifier contains it: the scan has no result, it raises.
\<close>

theorem scan_genes_raises_counterexample:
  "scan_genes [Rsid_init ''rs429358'' (Str ''A;B;C'') ''Autism'' []]
     [''rs429358'' \<mapsto> ''rs429358'' @ [TAB] @ ''AB'']
   = Inl ValueError"
  by (simp add: scan_genes_def detect_def allele_match_set_def format_allele_def Rsid_init_def
        upper_def upper_char_eval)

text \<open>
  Claim C5, as the code has it. For the catalog of the single definition \<open>rs429358\<close>
  with genotype \<open>C;C\<close>, and the mapping sending \<open>rs429358\<close> to the line of the fields
  \<open>rs429358\<close>, \<open>17\<close>, \<open>12345\<close>, \<open>C\<close>, \<open>C\<close> separated by tabs, the scan produces exactly one
  match, and its matched format is \<open>C\<close>, a tab, \<open>C\<close>: the formats are generated in the
  order \<open>(C;C)\<close>, \<open>CC\<close>, \<open>C/C\<close>, \<open>C\<close> tab \<open>C\<close>, and the line contains none of the first
  three, since its two alleles are separated by a tab.
\<close>

theorem apoe_scan_matches_tab_format:
  "scan_genes
     [Rsid_init ''rs429358'' (Tuple [''C;C'']) ''Alzheimer's Disease'' ''APOE4 homozygous'']
     [''rs429358'' \<mapsto> ''rs429358'' @ [TAB] @ ''17'' @ [TAB] @ ''12345'' @ [TAB] @ ''C'' @ [TAB] @ ''C'']
   = Inr [(Rsid_init ''rs429358'' (Tuple [''C;C'']) ''Alzheimer's Disease'' ''APOE4 homozygous'',
           ''C'' @ [TAB] @ ''C'')]
   \<and> allele_match_set
        (Rsid_init ''rs429358'' (Tuple [''C;C'']) ''Alzheimer's Disease'' ''APOE4 homozygous'')
      = Inr [''(C;C)'', ''CC'', ''C/C'', ''C'' @ [TAB] @ ''C'']
   \<and> \<not> str_in ''(C;C)'' (''rs429358'' @ [TAB] @ ''17'' @ [TAB] @ ''12345'' @ [TAB] @ ''C'' @ [TAB] @ ''C'')
   \<and> \<not> str_in ''CC'' (''rs429358'' @ [TAB] @ ''17'' @ [TAB] @ ''12345'' @ [TAB] @ ''C'' @ [TAB] @ ''C'')
   \<and> \<not> str_in ''C/C'' (''rs429358'' @ [TAB] @ ''17'' @ [TAB] @ ''12345'' @ [TAB] @ ''C'' @ [TAB] @ ''C'')
   \<and> str_in (''C'' @ [TAB] @ ''C'')
        (''rs429358'' @ [TAB] @ ''17'' @ [TAB] @ ''12345'' @ [TAB] @ ''C'' @ [TAB] @ ''C'')"
  by (simp add: scan_genes_def detect_def allele_match_set_def format_allele_def Rsid_init_def
        upper_def upper_char_eval TAB_def)

text \<open>
  The matched format of that scan is not \<open>CC\<close>: the line does not contain \<open>CC\<close>.
\<close>

theorem apoe_scan_not_CC:
  "scan_genes
     [Rsid_init ''rs429358'' (Tuple [''C;C'']) ''Alzheimer's Disease'' ''APOE4 homozygous'']
     [''rs429358'' \<mapsto> ''rs429358'' @ [TAB] @ ''17'' @ [TAB] @ ''12345'' @ [TAB] @ ''C'' @ [TAB] @ ''C'']
   \<noteq> Inr [(Rsid_init ''rs429358'' (Tuple [''C;C'']) ''Alzheimer's Disease'' ''APOE4 homozygous'',
            ''CC'')]
   \<and> \<not> str_in ''CC'' (''rs429358'' @ [TAB] @ ''17'' @ [TAB] @ ''12345'' @ [TAB] @ ''C'' @ [TAB] @ ''C'')"
  by (simp add: scan_genes_def detect_def allele_match_set_def format_allele_def Rsid_init_def
        upper_def upper_char_eval TAB_def)

text \<open>
  Claim C7. For a catalog of two definitions for \<open>rs1322784\<close>, one with genotype \<open>C;C\<close>
  and one with genotype \<open>C;T\<close> (in either order, with any category and description), and
  any mapping sending \<open>rs1322784\<close> to the line of the fields \<open>rs1322784\<close>, \<open>1\<close>, \<open>999\<close>, \<open>C\<close>,
  \<open>T\<close> separated by tabs, the scan matches the \<open>C;T\<close> definition only. Each definition is
  detected on its own against the same line: not present for \<open>C;C\<close>, present for \<open>C;T\<close>.
\<close>

theorem scan_two_definitions_same_identifier:
  assumes "d ''rs1322784'' = Some (''rs1322784'' @ [TAB] @ ''1'' @ [TAB] @ ''999'' @ [TAB] @ ''C'' @ [TAB] @ ''T'')"
  shows "scan_genes [Rsid_init ''rs1322784'' (Str ''C;C'') c1 d1,
                     Rsid_init ''rs1322784'' (Str ''C;T'') c2 d2] d
         = Inr [(Rsid_init ''rs1322784'' (Str ''C;T'') c2 d2, ''C'' @ [TAB] @ ''T'')]
       \<and> scan_genes [Rsid_init ''rs1322784'' (Str ''C;T'') c2 d2,
                     Rsid_init ''rs1322784'' (Str ''C;C'') c1 d1] d
         = Inr [(Rsid_init ''rs1322784'' (Str ''C;T'') c2 d2, ''C'' @ [TAB] @ ''T'')]
       \<and> detect (Rsid_init ''rs1322784'' (Str ''C;C'') c1 d1)
            (''rs1322784'' @ [TAB] @ ''1'' @ [TAB] @ ''999'' @ [TAB] @ ''C'' @ [TAB] @ ''T'')
         = Inr (False, [])
       \<and> detect (Rsid_init ''rs1322784'' (Str ''C;T'') c2 d2)
            (''rs1322784'' @ [TAB] @ ''1'' @ [TAB] @ ''999'' @ [TAB] @ ''C'' @ [TAB] @ ''T'')
         = Inr (True, ''C'' @ [TAB] @ ''T'')"
proof -
  have cc: "detect (Rsid_init ''rs1322784'' (Str ''C;C'') c1 d1)
            (''rs1322784'' @ [TAB] @ ''1'' @ [TAB] @ ''999'' @ [TAB] @ ''C'' @ [TAB] @ ''T'')
         = Inr (False, [])"
    by (simp add: detect_def allele_match_set_def format_allele_def Rsid_init_def
          upper_def upper_char_eval TAB_def)
  have ct: "detect (Rsid_init ''rs1322784'' (Str ''C;T'') c2 d2)
            (''rs1322784'' @ [TAB] @ ''1'' @ [TAB] @ ''999'' @ [TAB] @ ''C'' @ [TAB] @ ''T'')
         = Inr (True, ''C'' @ [TAB] @ ''T'')"
    by (simp add: detect_def allele_match_set_def format_allele_def Rsid_init_def
          upper_def upper_char_eval TAB_def)
  have k1: "rsid (Rsid_init ''rs1322784'' (Str ''C;C'') c1 d1) = ''rs1322784''"
    and k2: "rsid (Rsid_init ''rs1322784'' (Str ''C;T'') c2 d2) = ''rs1322784''"
    by (simp_all add: Rsid_init_def)
  have s1: "scan_genes [Rsid_init ''rs1322784'' (Str ''C;C'') c1 d1,
                     Rsid_init ''rs1322784'' (Str ''C;T'') c2 d2] d
         = Inr [(Rsid_init ''rs1322784'' (Str ''C;T'') c2 d2, ''C'' @ [TAB] @ ''T'')]"
    unfolding scan_genes_def scan_loop.simps k1 k2 assms option.case cc ct by simp
  have s2: "scan_genes [Rsid_init ''rs1322784'' (Str ''C;T'') c2 d2,
                     Rsid_init ''rs1322784'' (Str ''C;C'') c1 d1] d
         = Inr [(Rsid_init ''rs1322784'' (Str ''C;T'') c2 d2, ''C'' @ [TAB] @ ''T'')]"
    unfolding scan_genes_def scan_loop.simps k1 k2 assms option.case cc ct by simp
  from s1 s2 cc ct show ?thesis by (intro conjI)
qed

text \<open>
  The theorem at the mapping with that single key.
\<close>

theorem scan_two_definitions_same_identifier_witness:
  "[''rs1322784'' \<mapsto> ''rs1322784'' @ [TAB] @ ''1'' @ [TAB] @ ''999'' @ [TAB] @ ''C'' @ [TAB] @ ''T'']
     ''rs1322784''
   = Some (''rs1322784'' @ [TAB] @ ''1'' @ [TAB] @ ''999'' @ [TAB] @ ''C'' @ [TAB] @ ''T'')
   \<and> scan_genes [Rsid_init ''rs1322784'' (Str ''C;C'') ''Autism'' [],
                 Rsid_init ''rs1322784'' (Str ''C;T'') ''Autism'' []]
        [''rs1322784'' \<mapsto> ''rs1322784'' @ [TAB] @ ''1'' @ [TAB] @ ''999'' @ [TAB] @ ''C'' @ [TAB] @ ''T'']
      = Inr [(Rsid_init ''rs1322784'' (Str ''C;T'') ''Autism'' [], ''C'' @ [TAB] @ ''T'')]"
proof -
  let ?d = "[''rs1322784'' \<mapsto> ''rs1322784'' @ [TAB] @ ''1'' @ [TAB] @ ''999'' @ [TAB] @ ''C'' @ [TAB] @ ''T'']"
  have h: "?d ''rs1322784''
      = Some (''rs1322784'' @ [TAB] @ ''1'' @ [TAB] @ ''999'' @ [TAB] @ ''C'' @ [TAB] @ ''T'')"
    by simp
  from scan_two_definitions_same_identifier [of ?d "''Autism''" "[]" "''Autism''" "[]", OF h]
  have "scan_genes [Rsid_init ''rs1322784'' (Str ''C;C'') ''Autism'' [],
                 Rsid_init ''rs1322784'' (Str ''C;T'') ''Autism'' []] ?d
      = Inr [(Rsid_init ''rs1322784'' (Str ''C;T'') ''Autism'' [], ''C'' @ [TAB] @ ''T'')]"
    by (elim conjE)
  with h show ?thesis by (intro conjI)
qed

text \<open>
  Claim C9. A call of the scan writes only the list it creates: it leaves the catalog
  and the dictionary of the store as they were. What it returns or raises is the scan of
  that catalog and that dictionary, whatever list an earlier call left behind. So a
  second call, run on the store the first call leaves, returns or raises what the first
  did.
\<close>

theorem scan_genes_deterministic:
  "fst (scan_genes_call (snd (scan_genes_call s))) = fst (scan_genes_call s)
   \<and> RSIDS_obj (snd (scan_genes_call s)) = RSIDS_obj s
   \<and> rsid_dict_obj (snd (scan_genes_call s)) = rsid_dict_obj s
   \<and> fst (scan_genes_call s) = scan_genes (RSIDS_obj s) (rsid_dict_obj s)
   \<and> fst (scan_genes_call (s\<lparr>detected_obj := leftover\<rparr>)) = fst (scan_genes_call s)"
proof -
  have fr: "RSIDS_obj (snd (scan_genes_call s)) = RSIDS_obj s
            \<and> rsid_dict_obj (snd (scan_genes_call s)) = rsid_dict_obj s"
    by (rule scan_genes_call_frame)
  have "fst (scan_genes_call (snd (scan_genes_call s)))
          = scan_genes (RSIDS_obj (snd (scan_genes_call s))) (rsid_dict_obj (snd (scan_genes_call s)))"
    by (rule scan_genes_call_result)
  also have "\<dots> = scan_genes (RSIDS_obj s) (rsid_dict_obj s)" using fr by simp
  also have "\<dots> = fst (scan_genes_call s)" by (rule scan_genes_call_result [symmetric])
  finally have two: "fst (scan_genes_call (snd (scan_genes_call s))) = fst (scan_genes_call s)" .
  have lo: "fst (scan_genes_call (s\<lparr>detected_obj := leftover\<rparr>)) = fst (scan_genes_call s)"
    by (simp add: scan_genes_call_result)
  from two fr scan_genes_call_result [of s] lo show ?thesis by (intro conjI) simp_all
qed

text \<open>
  The theorem at a store that holds the list of an earlier call: both calls return the
  one match of this store's catalog and dictionary.
\<close>

theorem scan_genes_deterministic_witness:
  "fst (scan_genes_call
          \<lparr>RSIDS_obj = [Rsid_init ''rs4532'' (Str ''C;T'') ''Autism'' []],
           rsid_dict_obj = [''rs4532'' \<mapsto> ''rs4532'' @ [TAB] @ ''CT''],
           detected_obj = [(Rsid_init ''rs686'' (Str ''A;G'') ''Autism'' [], ''AG'')]\<rparr>)
     = Inr [(Rsid_init ''rs4532'' (Str ''C;T'') ''Autism'' [], ''CT'')]
   \<and> fst (scan_genes_call (snd (scan_genes_call
          \<lparr>RSIDS_obj = [Rsid_init ''rs4532'' (Str ''C;T'') ''Autism'' []],
           rsid_dict_obj = [''rs4532'' \<mapsto> ''rs4532'' @ [TAB] @ ''CT''],
           detected_obj = [(Rsid_init ''rs686'' (Str ''A;G'') ''Autism'' [], ''AG'')]\<rparr>)))
     = Inr [(Rsid_init ''rs4532'' (Str ''C;T'') ''Autism'' [], ''CT'')]"
proof -
  let ?s = "\<lparr>RSIDS_obj = [Rsid_init ''rs4532'' (Str ''C;T'') ''Autism'' []],
           rsid_dict_obj = [''rs4532'' \<mapsto> ''rs4532'' @ [TAB] @ ''CT''],
           detected_obj = [(Rsid_init ''rs686'' (Str ''A;G'') ''Autism'' [], ''AG'')]\<rparr>"
  have one: "fst (scan_genes_call ?s) = Inr [(Rsid_init ''rs4532'' (Str ''C;T'') ''Autism'' [], ''CT'')]"
    by (simp add: scan_genes_call_def detect_def allele_match_set_def format_allele_def
          Rsid_init_def upper_def upper_char_eval TAB_def)
  have "fst (scan_genes_call (snd (scan_genes_call ?s))) = fst (scan_genes_call ?s)"
    by (rule scan_genes_deterministic [of ?s "[]", THEN conjunct1])
  with one show ?thesis by simp
qed

section \<open>Construction of the catalog\<close>

text \<open>
  Claim C10. The constructor replaces an empty description, like an absent one, by
  \<open>Variant associated with\<close> followed by the category; so the description of a constructed
  definition is never empty, and every definition of a catalog built from a table of
  entries has a non-empty description.
\<close>

theorem description_never_empty:
  "description (Rsid_init i a c []) = ''Variant associated with '' @ c
   \<and> description (Rsid_of_entry (Entry3 i a c)) = ''Variant associated with '' @ c
   \<and> description (Rsid_of_entry (Entry4 i a c [])) = ''Variant associated with '' @ c
   \<and> description (Rsid_init i a c d) \<noteq> []
   \<and> (\<forall>r\<in>set (make_RSIDS raw). description r \<noteq> [])"
proof -
  have ne: "\<And>i a c d. description (Rsid_init i a c d) \<noteq> []"
    by (simp add: Rsid_init_def)
  have "\<And>e. description (Rsid_of_entry e) \<noteq> []"
  proof -
    fix e show "description (Rsid_of_entry e) \<noteq> []"
      by (cases e) (simp_all add: ne)
  qed
  then have "\<forall>r\<in>set (make_RSIDS raw). description r \<noteq> []"
    by (auto simp add: make_RSIDS_def)
  then show ?thesis using ne [of i a c d] by (simp add: Rsid_init_def)
qed

text \<open>
  The theorem at three entries of the table: one without description, one with a
  description and one with an empty description.
\<close>

theorem description_never_empty_witness:
  "list_all (\<lambda>r. description r \<noteq> [])
     (make_RSIDS [Entry3 ''rs7570682'' (Str ''A;A'') ''Bipolar Disorder'',
                  Entry4 ''rs4027132'' (Str ''A;A'') ''Bipolar Disorder''
                    ''Associated with bipolar disorder risk'',
                  Entry4 ''rs1375144'' (Str ''C;C'') ''Bipolar Disorder'' []])
   \<and> map description
        (make_RSIDS [Entry3 ''rs7570682'' (Str ''A;A'') ''Bipolar Disorder'',
                     Entry4 ''rs4027132'' (Str ''A;A'') ''Bipolar Disorder''
                       ''Associated with bipolar disorder risk'',
                     Entry4 ''rs1375144'' (Str ''C;C'') ''Bipolar Disorder'' []])
      = [''Variant associated with Bipolar Disorder'',
         ''Associated with bipolar disorder risk'',
         ''Variant associated with Bipolar Disorder'']"
  using description_never_empty
    [of "''rs7570682''" "Str ''A;A''" "''Bipolar Disorder''" "[]"
        "[Entry3 ''rs7570682'' (Str ''A;A'') ''Bipolar Disorder'',
          Entry4 ''rs4027132'' (Str ''A;A'') ''Bipolar Disorder''
            ''Associated with bipolar disorder risk'',
          Entry4 ''rs1375144'' (Str ''C;C'') ''Bipolar Disorder'' []]"]
  by (simp add: make_RSIDS_def Rsid_init_def)

end
